theory Spec2Isabelle
  imports Complex_Main
begin

section \<open>Python strings\<close>

text \<open>
  A Python \<open>str\<close> is a sequence of Unicode code points, so a string is a list of
  code points (natural numbers). \<open>ustr\<close> reads an ASCII literal as such a list.
\<close>

type_synonym ustr = "nat list"

definition ustr :: "string \<Rightarrow> ustr" where
  "ustr s = map of_char s"

text \<open>
  \<open>str.isspace\<close> for one code point (CPython's \<open>_PyUnicode_IsWhitespace\<close>): the
  characters that \<open>str.strip()\<close> and \<open>str.split()\<close> without argument remove.
\<close>

definition is_space :: "nat \<Rightarrow> bool" where
  "is_space c \<longleftrightarrow>
     (9 \<le> c \<and> c \<le> 13) \<or> (28 \<le> c \<and> c \<le> 32) \<or> c = 133 \<or> c = 160 \<or> c = 5760 \<or>
     (8192 \<le> c \<and> c \<le> 8202) \<or> c = 8232 \<or> c = 8233 \<or> c = 8239 \<or> c = 8287 \<or>
     c = 12288"

text \<open>\<open>s.lstrip(chars)\<close>, \<open>s.rstrip(chars)\<close> and \<open>s.strip(chars)\<close>, for a predicate on code points.\<close>

definition lstrip_by :: "(nat \<Rightarrow> bool) \<Rightarrow> ustr \<Rightarrow> ustr" where
  "lstrip_by p s = dropWhile p s"

definition rstrip_by :: "(nat \<Rightarrow> bool) \<Rightarrow> ustr \<Rightarrow> ustr" where
  "rstrip_by p s = rev (dropWhile p (rev s))"

definition strip_by :: "(nat \<Rightarrow> bool) \<Rightarrow> ustr \<Rightarrow> ustr" where
  "strip_by p s = rstrip_by p (lstrip_by p s)"

text \<open>\<open>s.strip(chars)\<close>: both ends, every character that occurs in \<open>chars\<close>.\<close>

definition strip_chars :: "ustr \<Rightarrow> ustr \<Rightarrow> ustr" where
  "strip_chars chars s = strip_by (\<lambda>c. c \<in> set chars) s"

text \<open>\<open>s.strip()\<close>: whitespace at both ends.\<close>

definition py_strip :: "ustr \<Rightarrow> ustr" where
  "py_strip s = strip_by is_space s"

text \<open>\<open>s.startswith(p)\<close>.\<close>

definition startswith :: "ustr \<Rightarrow> ustr \<Rightarrow> bool" where
  "startswith s p \<longleftrightarrow> take (length p) s = p"

text \<open>
  Cutting a string at every character that satisfies \<open>p\<close>: the pieces between the
  separators, empty ones included, so never an empty list. \<open>s.split(sep)\<close> for a
  separator of one character cuts at that character; \<open>s.split()\<close> cuts at whitespace
  and drops the empty pieces.
\<close>

fun split_when :: "(nat \<Rightarrow> bool) \<Rightarrow> ustr \<Rightarrow> ustr list" where
  "split_when p [] = [[]]"
| "split_when p (c # cs) =
     (if p c then [] # split_when p cs
      else (case split_when p cs of
              [] \<Rightarrow> [[c]]
            | l # ls \<Rightarrow> (c # l) # ls))"

definition split_on :: "nat \<Rightarrow> ustr \<Rightarrow> ustr list" where
  "split_on sep s = split_when (\<lambda>c. c = sep) s"

definition py_split :: "ustr \<Rightarrow> ustr list" where
  "py_split s = filter (\<lambda>w. w \<noteq> []) (split_when is_space s)"

text \<open>\<open>" ".join(xs)\<close>.\<close>

fun join_space :: "ustr list \<Rightarrow> ustr" where
  "join_space [] = []"
| "join_space [x] = x"
| "join_space (x # y # ys) = x @ [32] @ join_space (y # ys)"

text \<open>
  \<open>str.lower\<close> and \<open>str.upper\<close>. On ASCII they shift the letters; beyond ASCII they
  follow the Unicode tables, which are a parameter here: \<open>lower\<close> of a whole string
  (its rule for the final sigma reads the context), \<open>upper\<close> character by character
  (one character can become several).
\<close>

definition lower_ascii :: "nat \<Rightarrow> nat" where
  "lower_ascii c = (if 65 \<le> c \<and> c \<le> 90 then c + 32 else c)"


definition py_lower :: "(ustr \<Rightarrow> ustr) \<Rightarrow> ustr \<Rightarrow> ustr" where
  "py_lower unicode_lower s =
     (if list_all (\<lambda>c. c < 128) s then map lower_ascii s else unicode_lower s)"


text \<open>
  \<open>os.path.join\<close> of \<open>posixpath\<close>, for two components: a component that starts with
  \<open>/\<close> discards what came before it.
\<close>

definition path_join :: "ustr \<Rightarrow> ustr \<Rightarrow> ustr" where
  "path_join a b =
     (if startswith b [47] then b
      else if a = [] \<or> last a = 47 then a @ b
      else a @ [47] @ b)"

section \<open>Python floats\<close>

text \<open>
  A finite double is a pair \<open>(m, e)\<close> that stands for \<open>m * 2 ^ e\<close>. The operations
  round to nearest, ties to even, on 53 bits, as IEEE 754 does; the exponent is not
  bounded, so overflow and subnormal numbers are outside the model (no quantity of
  this program comes near them).
\<close>

type_synonym float = "int \<times> int"

text \<open>\<open>int.bit_length\<close> of a non-negative integer.\<close>

function bit_length :: "int \<Rightarrow> int" where
  "bit_length n = (if n \<le> 0 then 0 else 1 + bit_length (n div 2))"
  by pat_completeness auto
termination
  by (relation "measure nat") auto

declare bit_length.simps [simp del]

text \<open>The integer nearest to \<open>n / d\<close> for \<open>0 \<le> n\<close> and \<open>0 < d\<close>, ties to even.\<close>

definition round_half_even :: "int \<Rightarrow> int \<Rightarrow> int" where
  "round_half_even n d =
     (let q = n div d; r = n mod d in
      if 2 * r < d then q else if d < 2 * r then q + 1 else if even q then q else q + 1)"

text \<open>
  The double nearest to \<open>n / d\<close> for \<open>0 < n\<close> and \<open>0 < d\<close>: with \<open>k\<close> the difference
  of the bit lengths, \<open>n / d\<close> lies between \<open>2 ^ (k - 1)\<close> and \<open>2 ^ (k + 1)\<close>, so the
  exponent that leaves 53 bits is \<open>k - 52\<close> or \<open>k - 53\<close>.
\<close>

definition round_pos :: "int \<Rightarrow> int \<Rightarrow> float" where
  "round_pos n d =
     (let k = bit_length n - bit_length d;
          e = (if (if 0 \<le> k then d * 2 ^ nat k \<le> n else d \<le> n * 2 ^ nat (- k))
               then k - 52 else k - 53)
      in if 0 \<le> e then (round_half_even n (d * 2 ^ nat e), e)
         else (round_half_even (n * 2 ^ nat (- e)) d, e))"

text \<open>\<open>n / d\<close> of two integers with \<open>0 < d\<close> (true division, correctly rounded).\<close>

definition float_div :: "int \<Rightarrow> int \<Rightarrow> float" where
  "float_div n d =
     (if n = 0 then (0, 0)
      else if 0 < n then round_pos n d
      else (case round_pos (- n) d of (m, e) \<Rightarrow> (- m, e)))"

text \<open>\<open>s * x\<close> of an integer and a float: the exact product, rounded.\<close>

definition float_mul_int :: "int \<Rightarrow> float \<Rightarrow> float" where
  "float_mul_int s x =
     (case x of (m, e) \<Rightarrow>
        if 0 \<le> e then float_div (s * m * 2 ^ nat e) 1
        else float_div (s * m) (2 ^ nat (- e)))"

text \<open>\<open>int(x)\<close>: truncation towards zero.\<close>

definition float_trunc :: "float \<Rightarrow> int" where
  "float_trunc x =
     (case x of (m, e) \<Rightarrow>
        if 0 \<le> e then m * 2 ^ nat e
        else if 0 \<le> m then m div 2 ^ nat (- e)
        else - ((- m) div 2 ^ nat (- e)))"

text \<open>The value of a float, for statements about it.\<close>

definition float_val :: "float \<Rightarrow> rat" where
  "float_val x = (case x of (m, e) \<Rightarrow> if 0 \<le> e then of_int m * 2 ^ nat e else of_int m / 2 ^ nat (- e))"

section \<open>Images and the library\<close>

text \<open>
  A PIL image, as far as this program reads it: its size, its mode and its pixel
  data. What Pillow, the file system and the Unicode tables compute is not code of
  this program: it is the record \<open>library\<close>, a parameter of every function below.
  A call that can raise returns a sum (\<open>Inl\<close> the exception): opening and resizing
  an image, the blur and the two enhancers (Pillow refuses a palette image there)
  and the JPEG encoder. \<open>truetype\<close> returns \<open>None\<close> where \<open>ImageFont.truetype\<close>
  raises, since the source catches that.
\<close>

datatype py_error = ZeroDivisionError | ValueError | OSError

datatype resample = NEAREST | BILINEAR | BICUBIC | LANCZOS

datatype font = Font nat

record image =
  img_width :: nat
  img_height :: nat
  img_mode :: ustr
  img_data :: "nat list"

type_synonym bbox = "int \<times> int \<times> int \<times> int"

record library =
  unicode_lower :: "ustr \<Rightarrow> ustr"
  unicode_upper :: "nat \<Rightarrow> ustr"
  path_exists :: "ustr \<Rightarrow> bool"
  image_open :: "ustr \<Rightarrow> py_error + image"
  convert :: "image \<Rightarrow> ustr \<Rightarrow> image"
  grayscale :: "image \<Rightarrow> image"
  colorize :: "image \<Rightarrow> ustr \<Rightarrow> ustr \<Rightarrow> image"
  gaussian_blur :: "image \<Rightarrow> int \<Rightarrow> py_error + image"
  brightness :: "image \<Rightarrow> float \<Rightarrow> py_error + image"
  contrast :: "image \<Rightarrow> float \<Rightarrow> py_error + image"
  resize :: "image \<Rightarrow> int \<times> int \<Rightarrow> resample \<Rightarrow> py_error + image"
  paste :: "image \<Rightarrow> image \<Rightarrow> int \<times> int \<Rightarrow> image \<Rightarrow> image"
  truetype :: "ustr \<Rightarrow> int \<Rightarrow> font option"
  load_default :: font
  textbbox :: "font \<Rightarrow> ustr \<Rightarrow> bbox"
  getbbox :: "font \<Rightarrow> ustr \<Rightarrow> bbox"
  draw_text :: "image \<Rightarrow> int \<times> int \<Rightarrow> ustr \<Rightarrow> font \<Rightarrow> int \<Rightarrow> image"
  save_jpeg :: "image \<Rightarrow> int \<Rightarrow> py_error + nat list"

section \<open>\<open>apply_filter\<close>\<close>

text \<open>Line 52: \<open>os.path.join("static", "filters", f"{filter_name}.png")\<close>.\<close>

definition overlay_path :: "ustr \<Rightarrow> ustr" where
  "overlay_path filter_name =
     path_join (path_join (ustr ''static'') (ustr ''filters'')) (filter_name @ ustr ''.png'')"

text \<open>
  Lines 57 to 60: the size handed to \<open>resize\<close>, \<open>(scale, int(scale * aspect))\<close> with
  \<open>scale = W // 2\<close> and \<open>aspect = overlay.size[1] / overlay.size[0]\<close>.
\<close>

definition overlay_size :: "nat \<Rightarrow> image \<Rightarrow> py_error + int \<times> int" where
  "overlay_size W overlay =
     (let scale = int W div 2 in
      if img_width overlay = 0 then Inl ZeroDivisionError
      else
        (let aspect = float_div (int (img_height overlay)) (int (img_width overlay))
         in Inr (scale, float_trunc (float_mul_int scale aspect))))"

text \<open>Lines 63 to 70: where the resized overlay is pasted.\<close>

definition overlay_pos :: "ustr \<Rightarrow> nat \<Rightarrow> nat \<Rightarrow> image \<Rightarrow> int \<times> int" where
  "overlay_pos filter_name W H overlay =
     (if filter_name = ustr ''dog'' then (int W div 5, int H div 25)
      else if filter_name = ustr ''sunglasses'' then (int W div 5, int H div 4)
      else if filter_name = ustr ''flower'' then (int W div 5, 0)
      else (int W div 2 - int (img_width overlay) div 2,
            int H div 2 - int (img_height overlay) div 2))"

text \<open>Lines 53 to 75: the overlay branch, once the file is known to exist.\<close>

definition apply_overlay :: "library \<Rightarrow> image \<Rightarrow> ustr \<Rightarrow> py_error + image" where
  "apply_overlay lib img filter_name =
     (case image_open lib (overlay_path filter_name) of
        Inl err \<Rightarrow> Inl err
      | Inr opened \<Rightarrow>
          (let overlay = convert lib opened (ustr ''RGBA'');
               W = img_width img;
               H = img_height img
           in case overlay_size W overlay of
                Inl err \<Rightarrow> Inl err
              | Inr sz \<Rightarrow>
                  (case resize lib overlay sz LANCZOS of
                     Inl err \<Rightarrow> Inl err
                   | Inr resized \<Rightarrow>
                       (let pos = overlay_pos filter_name W H resized;
                            rgba = convert lib img (ustr ''RGBA'')
                        in Inr (convert lib (paste lib rgba resized pos resized) (ustr ''RGB''))))))"

definition apply_filter :: "library \<Rightarrow> image \<Rightarrow> ustr \<Rightarrow> py_error + image" where
  "apply_filter lib img name =
     (let filter_name = py_strip (py_lower (unicode_lower lib) name) in
      if filter_name = ustr ''grayscale'' then
        Inr (convert lib (grayscale lib img) (ustr ''RGB''))
      else if filter_name = ustr ''sepia'' then
        Inr (convert lib (colorize lib (grayscale lib img) (ustr ''#704214'') (ustr ''#C0A080''))
               (ustr ''RGB''))
      else if filter_name = ustr ''blur'' then gaussian_blur lib img 3
      else if filter_name = ustr ''bright'' then brightness lib img (float_div 14 10)
      else if filter_name = ustr ''contrast'' then contrast lib img (float_div 18 10)
      else if path_exists lib (overlay_path filter_name) then apply_overlay lib img filter_name
      else Inr img)"

section \<open>\<open>draw_caption_on_image\<close>\<close>

text \<open>
  Lines 85 to 93: the first candidate that \<open>ImageFont.truetype\<close> loads, or the
  default font.
\<close>

fun first_font :: "library \<Rightarrow> ustr list \<Rightarrow> int \<Rightarrow> font option" where
  "first_font lib [] sz = None"
| "first_font lib (candidate # rest) sz =
     (case truetype lib candidate sz of
        Some f \<Rightarrow> Some f
      | None \<Rightarrow> first_font lib rest sz)"

definition font_candidates :: "ustr list" where
  "font_candidates = [ustr ''Impact.ttf'', ustr ''impact.ttf'', ustr ''Arial.ttf'', ustr ''arial.ttf'']"

definition resolve_font :: "library \<Rightarrow> int \<Rightarrow> font" where
  "resolve_font lib base_size =
     (case first_font lib font_candidates base_size of
        Some f \<Rightarrow> f
      | None \<Rightarrow> load_default lib)"

text \<open>
  Lines 100 and 101, 127 and 128: the rendered width of a string,
  \<open>bbox[2] - bbox[0]\<close> of \<open>draw.textbbox((0, 0), s, font=font)\<close>.
\<close>

definition text_width :: "library \<Rightarrow> font \<Rightarrow> ustr \<Rightarrow> int" where
  "text_width lib f s = (case textbbox lib f s of (x0, y0, x1, y1) \<Rightarrow> x1 - x0)"

text \<open>
  Lines 96 to 110: \<open>wrap_text\<close>. The loop body works on \<open>(lines, current)\<close>; \<open>tw\<close> is
  the width of a string and \<open>limit\<close> is \<open>int(W * 0.9)\<close>.
\<close>

definition wrap_step :: "(ustr \<Rightarrow> int) \<Rightarrow> int \<Rightarrow> ustr \<Rightarrow> ustr list \<times> ustr \<Rightarrow> ustr list \<times> ustr" where
  "wrap_step tw limit w st =
     (case st of (lines, current) \<Rightarrow>
        (let trial = py_strip (current @ [32] @ w) in
         if tw trial \<le> limit then (lines, trial)
         else ((if current \<noteq> [] then lines @ [current] else lines), w)))"

definition wrap_words :: "(ustr \<Rightarrow> int) \<Rightarrow> int \<Rightarrow> ustr list \<Rightarrow> ustr list" where
  "wrap_words tw limit words =
     (case fold (wrap_step tw limit) words ([], []) of
        (lines, current) \<Rightarrow> if current \<noteq> [] then lines @ [current] else lines)"

definition wrap_limit :: "nat \<Rightarrow> int" where
  "wrap_limit W = float_trunc (float_mul_int (int W) (float_div 9 10))"

definition wrap_text :: "library \<Rightarrow> font \<Rightarrow> nat \<Rightarrow> ustr \<Rightarrow> ustr list" where
  "wrap_text lib f W txt = wrap_words (text_width lib f) (wrap_limit W) (py_split txt)"





section \<open>The suggestion parser of \<open>generate_captions\<close>\<close>

text \<open>
  Lines 175 to 195: the reply of the model (\<open>None\<close> or a string) is cut into
  captions, hashtags and a description. The request and the call of the model are
  outside the embedding; the reply is the input.
\<close>

record suggestion =
  captions :: "ustr list"
  hashtags :: "ustr list"
  description :: ustr

text \<open>The characters of \<open>"-\<bullet> "\<close>: hyphen, bullet (U+2022) and space; and \<open>"#"\<close>.\<close>

definition bullet_chars :: ustr where
  "bullet_chars = [45, 8226, 32]"

definition hash_chars :: ustr where
  "hash_chars = [35]"

text \<open>The body of the loop, on the three accumulators.\<close>

definition parse_line :: "ustr \<Rightarrow> ustr list \<times> ustr list \<times> ustr \<Rightarrow> ustr list \<times> ustr list \<times> ustr" where
  "parse_line raw st =
     (case st of (caps, tags, desc) \<Rightarrow>
        (let line = strip_chars bullet_chars raw in
         if line = [] then (caps, tags, desc)
         else if startswith line hash_chars then (caps, tags @ [strip_chars hash_chars line], desc)
         else if length caps < 3 then (caps @ [line], tags, desc)
         else (caps, tags, desc @ line @ [32])))"

definition parse_lines :: "ustr list \<Rightarrow> ustr list \<times> ustr list \<times> ustr" where
  "parse_lines parts = fold parse_line parts ([], [], [])"

definition generate_captions :: "ustr option \<Rightarrow> suggestion" where
  "generate_captions text =
     (case (if text = None \<or> text = Some [] then ([], [], [])
            else parse_lines (split_on 10 (the text))) of
        (caps, tags, desc) \<Rightarrow>
          \<lparr>captions = caps, hashtags = tags, description = py_strip desc\<rparr>)"

section \<open>Vocabulary of the statements\<close>

text \<open>\<open>s.lstrip(chars)\<close>: the leading end only. The source never calls it.\<close>

definition lstrip_chars :: "ustr \<Rightarrow> ustr \<Rightarrow> ustr" where
  "lstrip_chars chars s = lstrip_by (\<lambda>c. c \<in> set chars) s"

text \<open>
  The lines of a reply; those that, once trimmed, are neither empty nor a hashtag
  (the candidates for a caption); and those that are a hashtag.
\<close>

definition reply_lines :: "ustr option \<Rightarrow> ustr list" where
  "reply_lines text = (case text of None \<Rightarrow> [] | Some t \<Rightarrow> split_on 10 t)"

definition body_of :: "ustr list \<Rightarrow> ustr list" where
  "body_of parts =
     filter (\<lambda>l. l \<noteq> [] \<and> \<not> startswith l hash_chars) (map (strip_chars bullet_chars) parts)"

definition tags_of :: "ustr list \<Rightarrow> ustr list" where
  "tags_of parts =
     map (strip_chars hash_chars)
       (filter (\<lambda>l. l \<noteq> [] \<and> startswith l hash_chars) (map (strip_chars bullet_chars) parts))"

text \<open>Line 35, the name that the branches compare; and the five built-in names.\<close>

definition normalised :: "library \<Rightarrow> ustr \<Rightarrow> ustr" where
  "normalised lib name = py_strip (py_lower (unicode_lower lib) name)"

definition builtin_names :: "ustr list" where
  "builtin_names =
     [ustr ''grayscale'', ustr ''sepia'', ustr ''blur'', ustr ''bright'', ustr ''contrast'']"

text \<open>
  What Pillow guarantees and the statements rely on: \<open>convert\<close>, the tonal
  operations and \<open>paste\<close> return an image of the size of the image they are given
  (for \<open>paste\<close>, of the image pasted on), where they return one.
\<close>

definition same_size :: "image \<Rightarrow> image \<Rightarrow> bool" where
  "same_size a b \<longleftrightarrow> img_width a = img_width b \<and> img_height a = img_height b"

definition keeps_size :: "library \<Rightarrow> bool" where
  "keeps_size lib \<longleftrightarrow>
     (\<forall>im m. same_size (convert lib im m) im) \<and>
     (\<forall>im. same_size (grayscale lib im) im) \<and>
     (\<forall>im b w. same_size (colorize lib im b w) im) \<and>
     (\<forall>im r out. gaussian_blur lib im r = Inr out \<longrightarrow> same_size out im) \<and>
     (\<forall>im x out. brightness lib im x = Inr out \<longrightarrow> same_size out im) \<and>
     (\<forall>im x out. contrast lib im x = Inr out \<longrightarrow> same_size out im) \<and>
     (\<forall>base ov pos mask. same_size (paste lib base ov pos mask) base)"

text \<open>
  A small library to run the functions on: two files exist, every file opens as a
  40 by 30 image, \<open>resize\<close> refuses an empty size as Pillow does, \<open>paste\<close> and
  \<open>draw_text\<close> leave a trace in the pixel data, the blur and the enhancers refuse
  the mode \<open>P\<close>, no TrueType font is installed, every character is 10 wide, and
  the JPEG encoder returns the pixel data.
\<close>

definition example_library :: library where
  "example_library =
     \<lparr>unicode_lower = (\<lambda>s. s),
      unicode_upper = (\<lambda>c. [c]),
      path_exists = (\<lambda>p. p = ustr ''static/filters/dog.png'' \<or> p = ustr ''/x.png''),
      image_open = (\<lambda>p. Inr \<lparr>img_width = 40, img_height = 30, img_mode = ustr ''P'', img_data = [7]\<rparr>),
      convert = (\<lambda>im m. im\<lparr>img_mode := m\<rparr>),
      grayscale = (\<lambda>im. im\<lparr>img_mode := ustr ''L''\<rparr>),
      colorize = (\<lambda>im b w. im\<lparr>img_mode := ustr ''RGB''\<rparr>),
      gaussian_blur = (\<lambda>im r. if img_mode im = ustr ''P'' then Inl ValueError else Inr im),
      brightness = (\<lambda>im x. if img_mode im = ustr ''P'' then Inl ValueError else Inr im),
      contrast = (\<lambda>im x. if img_mode im = ustr ''P'' then Inl ValueError else Inr im),
      resize = (\<lambda>im sz how.
        if fst sz < 1 \<or> snd sz < 1 then Inl ValueError
        else Inr (im\<lparr>img_width := nat (fst sz), img_height := nat (snd sz)\<rparr>)),
      paste = (\<lambda>base ov pos mask. base\<lparr>img_data := img_data base @ img_data ov\<rparr>),
      truetype = (\<lambda>name sz. None),
      load_default = Font 0,
      textbbox = (\<lambda>f s. (0, 0, 10 * int (length s), 12)),
      getbbox = (\<lambda>f s. (0, 2, 10 * int (length s), 14)),
      draw_text = (\<lambda>im pos s f stroke. im\<lparr>img_data := img_data im @ s\<rparr>),
      save_jpeg = (\<lambda>im q. Inr (img_data im))\<rparr>"

definition example_image :: "nat \<Rightarrow> nat \<Rightarrow> image" where
  "example_image w h = \<lparr>img_width = w, img_height = h, img_mode = ustr ''RGB'', img_data = [1, 2, 3]\<rparr>"

section \<open>Facts about stripping\<close>

lemma rstrip_by_append:
  "\<exists>post. s = rstrip_by p s @ post \<and> (\<forall>c \<in> set post. p c)"
proof -
  have "rev s = takeWhile p (rev s) @ dropWhile p (rev s)" by simp
  then have "s = rev (dropWhile p (rev s)) @ rev (takeWhile p (rev s))"
    by (metis rev_append rev_rev_ident)
  moreover have "\<forall>c \<in> set (rev (takeWhile p (rev s))). p c"
    by (auto dest: set_takeWhileD)
  ultimately show ?thesis unfolding rstrip_by_def by blast
qed

lemma rstrip_by_last:
  "rstrip_by p s \<noteq> [] \<Longrightarrow> \<not> p (last (rstrip_by p s))"
  unfolding rstrip_by_def
  by (metis hd_dropWhile last_rev rev_is_Nil_conv)

lemma lstrip_by_append:
  "\<exists>pre. s = pre @ lstrip_by p s \<and> (\<forall>c \<in> set pre. p c)"
proof -
  have "s = takeWhile p s @ dropWhile p s" by simp
  moreover have "\<forall>c \<in> set (takeWhile p s). p c" by (auto dest: set_takeWhileD)
  ultimately show ?thesis unfolding lstrip_by_def by blast
qed

lemma lstrip_by_hd:
  "lstrip_by p s \<noteq> [] \<Longrightarrow> \<not> p (hd (lstrip_by p s))"
  unfolding lstrip_by_def by (simp add: hd_dropWhile)

lemma rstrip_by_hd:
  assumes "rstrip_by p s \<noteq> []"
  shows "hd (rstrip_by p s) = hd s"
proof -
  obtain post where "s = rstrip_by p s @ post" using rstrip_by_append by blast
  then show ?thesis using assms by (metis hd_append2)
qed

lemma strip_by_decomp:
  "\<exists>pre post. s = pre @ strip_by p s @ post \<and> (\<forall>c \<in> set pre. p c) \<and> (\<forall>c \<in> set post. p c)"
proof -
  obtain pre where pre: "s = pre @ lstrip_by p s" "\<forall>c \<in> set pre. p c"
    using lstrip_by_append by blast
  obtain post where post: "lstrip_by p s = rstrip_by p (lstrip_by p s) @ post" "\<forall>c \<in> set post. p c"
    using rstrip_by_append by blast
  have "s = pre @ strip_by p s @ post"
    unfolding strip_by_def using pre(1) post(1) by simp
  then show ?thesis using pre(2) post(2) by blast
qed

lemma strip_by_ends:
  assumes "strip_by p s \<noteq> []"
  shows "\<not> p (hd (strip_by p s)) \<and> \<not> p (last (strip_by p s))"
proof -
  have ne: "lstrip_by p s \<noteq> []"
    using assms unfolding strip_by_def rstrip_by_def by auto
  have "hd (strip_by p s) = hd (lstrip_by p s)"
    using assms rstrip_by_hd unfolding strip_by_def by blast
  then have "\<not> p (hd (strip_by p s))" using lstrip_by_hd [OF ne] by simp
  moreover have "\<not> p (last (strip_by p s))"
    using assms rstrip_by_last unfolding strip_by_def by blast
  ultimately show ?thesis by blast
qed

lemma dropWhile_all_Nil:
  "(\<forall>c \<in> set s. p c) \<Longrightarrow> dropWhile p s = []"
  by (induction s) auto

lemma strip_by_all:
  "(\<forall>c \<in> set s. p c) \<Longrightarrow> strip_by p s = []"
  unfolding strip_by_def rstrip_by_def lstrip_by_def
  by (simp add: dropWhile_all_Nil)

lemma dropWhile_hd_id:
  "s \<noteq> [] \<Longrightarrow> \<not> p (hd s) \<Longrightarrow> dropWhile p s = s"
  by (cases s) auto

lemma strip_by_none:
  assumes "s \<noteq> []" "\<not> p (hd s)" "\<not> p (last s)"
  shows "strip_by p s = s"
proof -
  have l: "dropWhile p s = s" using assms by (simp add: dropWhile_hd_id)
  have "hd (rev s) = last s" using assms(1) by (simp add: hd_rev)
  then have "dropWhile p (rev s) = rev s" using assms by (simp add: dropWhile_hd_id)
  then show ?thesis unfolding strip_by_def rstrip_by_def lstrip_by_def using l by simp
qed
section \<open>The suggestion parser\<close>

lemma fold_parse_line:
  "fold parse_line ls (caps, tags, desc) =
     (caps @ take (3 - length caps) (body_of ls),
      tags @ tags_of ls,
      desc @ concat (map (\<lambda>l. l @ [32]) (drop (3 - length caps) (body_of ls))))"
proof (induction ls arbitrary: caps tags desc)
  case Nil
  then show ?case by (simp add: body_of_def tags_of_def)
next
  case (Cons r rest)
  define line where "line = strip_chars bullet_chars r"
  consider (empty) "line = []"
    | (tag) "line \<noteq> []" "startswith line hash_chars"
    | (cap) "line \<noteq> []" "\<not> startswith line hash_chars" "length caps < 3"
    | (desc) "line \<noteq> []" "\<not> startswith line hash_chars" "\<not> length caps < 3"
    by blast
  then show ?case
  proof cases
    case empty
    then have "parse_line r (caps, tags, desc) = (caps, tags, desc)"
      by (simp add: parse_line_def line_def)
    moreover have "body_of (r # rest) = body_of rest" "tags_of (r # rest) = tags_of rest"
      using empty by (simp_all add: body_of_def tags_of_def line_def)
    ultimately show ?thesis by (simp add: Cons.IH)
  next
    case tag
    then have "parse_line r (caps, tags, desc) = (caps, tags @ [strip_chars hash_chars line], desc)"
      by (simp add: parse_line_def line_def)
    moreover have "body_of (r # rest) = body_of rest"
      "tags_of (r # rest) = strip_chars hash_chars line # tags_of rest"
      using tag by (simp_all add: body_of_def tags_of_def line_def)
    ultimately show ?thesis by (simp add: Cons.IH)
  next
    case cap
    then have "parse_line r (caps, tags, desc) = (caps @ [line], tags, desc)"
      by (simp add: parse_line_def line_def)
    moreover have "body_of (r # rest) = line # body_of rest" "tags_of (r # rest) = tags_of rest"
      using cap by (simp_all add: body_of_def tags_of_def line_def)
    moreover obtain k where "3 - length caps = Suc k" "3 - length (caps @ [line]) = k"
      using cap(3) by (cases "3 - length caps") auto
    ultimately show ?thesis by (simp add: Cons.IH)
  next
    case desc
    then have "parse_line r (caps, tags, desc) = (caps, tags, desc @ line @ [32])"
      by (simp add: parse_line_def line_def)
    moreover have "body_of (r # rest) = line # body_of rest" "tags_of (r # rest) = tags_of rest"
      using desc by (simp_all add: body_of_def tags_of_def line_def)
    moreover have "3 - length caps = 0" using desc(3) by simp
    ultimately show ?thesis by (simp add: Cons.IH)
  qed
qed

lemma split_on_empty: "split_on sep [] = [[]]"
  by (simp add: split_on_def)

lemma body_of_blank: "body_of [[]] = []"
  by (simp add: body_of_def strip_chars_def strip_by_def rstrip_by_def lstrip_by_def)

lemma tags_of_blank: "tags_of [[]] = []"
  by (simp add: tags_of_def strip_chars_def strip_by_def rstrip_by_def lstrip_by_def)

lemma generate_captions_eq:
  "generate_captions text =
     \<lparr>captions = take 3 (body_of (reply_lines text)),
      hashtags = tags_of (reply_lines text),
      description = py_strip (concat (map (\<lambda>l. l @ [32]) (drop 3 (body_of (reply_lines text)))))\<rparr>"
proof (cases "text")
  case None
  then show ?thesis
    by (simp add: generate_captions_def reply_lines_def body_of_def tags_of_def py_strip_def
        strip_by_def rstrip_by_def lstrip_by_def)
next
  case (Some t)
  show ?thesis
  proof (cases "t = []")
    case True
    then show ?thesis using Some
      by (simp add: generate_captions_def reply_lines_def split_on_empty body_of_blank
          tags_of_blank py_strip_def strip_by_def rstrip_by_def lstrip_by_def)
  next
    case False
    then show ?thesis using Some
      by (simp add: generate_captions_def reply_lines_def parse_lines_def fold_parse_line)
  qed
qed

lemma strip_by_idem: "strip_by p (strip_by p s) = strip_by p s"
proof (cases "strip_by p s = []")
  case True
  then show ?thesis by (simp add: strip_by_all)
next
  case False
  then show ?thesis using strip_by_ends [OF False] by (simp add: strip_by_none)
qed

text \<open>
  C3, as the code has it. A trimmed line that starts with \<open>#\<close> adds one hashtag: the
  line without its leading and without its trailing \<open>#\<close> characters, since
  \<open>line.strip("#")\<close> works on both ends.
\<close>

theorem hashtag_strips_both_ends:
  assumes "strip_chars bullet_chars raw \<noteq> []"
    and "startswith (strip_chars bullet_chars raw) hash_chars"
  shows "\<exists>h pre post.
           parse_line raw (caps, tags, desc) = (caps, tags @ [h], desc) \<and>
           strip_chars bullet_chars raw = pre @ h @ post \<and>
           list_all (\<lambda>c. c = 35) pre \<and> list_all (\<lambda>c. c = 35) post \<and>
           (h = [] \<or> (hd h \<noteq> 35 \<and> last h \<noteq> 35))"
proof -
  define line where "line = strip_chars bullet_chars raw"
  define h where "h = strip_chars hash_chars line"
  have step: "parse_line raw (caps, tags, desc) = (caps, tags @ [h], desc)"
    using assms by (simp add: parse_line_def line_def h_def)
  obtain pre post where d: "line = pre @ h @ post"
      "\<forall>c \<in> set pre. c \<in> set hash_chars" "\<forall>c \<in> set post. c \<in> set hash_chars"
    unfolding h_def strip_chars_def using strip_by_decomp by blast
  have "list_all (\<lambda>c. c = 35) pre" "list_all (\<lambda>c. c = 35) post"
    using d(2,3) by (simp_all add: hash_chars_def list_all_iff)
  moreover have "h = [] \<or> (hd h \<noteq> 35 \<and> last h \<noteq> 35)"
    using strip_by_ends [of "\<lambda>c. c \<in> set hash_chars" line]
    unfolding h_def strip_chars_def by (auto simp: hash_chars_def)
  ultimately show ?thesis using step d(1) unfolding line_def by blast
qed

theorem hashtag_strips_both_ends_witness:
  "\<exists>h pre post.
     parse_line (ustr ''- ##a b#'') ([], [], []) = ([], [] @ [h], []) \<and>
     strip_chars bullet_chars (ustr ''- ##a b#'') = pre @ h @ post \<and>
     list_all (\<lambda>c. c = 35) pre \<and> list_all (\<lambda>c. c = 35) post \<and>
     (h = [] \<or> (hd h \<noteq> 35 \<and> last h \<noteq> 35))"
proof -
  have a: "strip_chars bullet_chars (ustr ''- ##a b#'') \<noteq> []"
    by (simp add: strip_chars_def strip_by_def rstrip_by_def lstrip_by_def bullet_chars_def ustr_def)
  have b: "startswith (strip_chars bullet_chars (ustr ''- ##a b#'')) hash_chars"
    by (simp add: strip_chars_def strip_by_def rstrip_by_def lstrip_by_def bullet_chars_def
        ustr_def startswith_def hash_chars_def)
  show ?thesis using hashtag_strips_both_ends [OF a b] by blast
qed

text \<open>
  C3 as the claim has it fails: for the line \<open>#a#\<close> the hashtag is \<open>a\<close>, while
  removing the leading \<open>#\<close> only would leave \<open>a#\<close>.
\<close>

theorem hashtag_trailing_hash_counterexample:
  "hashtags (generate_captions (Some (ustr ''#a#''))) = [ustr ''a''] \<and>
   lstrip_chars hash_chars (ustr ''#a#'') = ustr ''a#''"
  by (simp add: generate_captions_def parse_lines_def parse_line_def split_on_def ustr_def
      strip_chars_def lstrip_chars_def strip_by_def rstrip_by_def lstrip_by_def bullet_chars_def
      hash_chars_def startswith_def)

text \<open>
  C4, as the code has it. \<open>line.strip("-\<bullet> ")\<close> removes the hyphens, bullets and
  spaces at both ends of a line and nothing else: the raw line is the trimmed line
  between two runs of these characters, and the trimmed line neither starts nor
  ends with one of them. It is the trimmed line that the loop body tests and
  appends.
\<close>

theorem bullet_trim_both_ends:
  "\<exists>pre line post.
     raw = pre @ line @ post \<and>
     list_all (\<lambda>c. c \<in> set bullet_chars) pre \<and>
     list_all (\<lambda>c. c \<in> set bullet_chars) post \<and>
     (line = [] \<or> (hd line \<notin> set bullet_chars \<and> last line \<notin> set bullet_chars)) \<and>
     parse_line raw (caps, tags, desc) =
       (if line = [] then (caps, tags, desc)
        else if startswith line hash_chars then
          (caps, tags @ [strip_chars hash_chars line], desc)
        else if length caps < 3 then (caps @ [line], tags, desc)
        else (caps, tags, desc @ line @ [32]))"
proof -
  define line where "line = strip_chars bullet_chars raw"
  obtain pre post where d: "raw = pre @ line @ post"
      "\<forall>c \<in> set pre. c \<in> set bullet_chars" "\<forall>c \<in> set post. c \<in> set bullet_chars"
    unfolding line_def strip_chars_def using strip_by_decomp by blast
  have l: "list_all (\<lambda>c. c \<in> set bullet_chars) pre" "list_all (\<lambda>c. c \<in> set bullet_chars) post"
    using d(2,3) by (simp_all add: list_all_iff)
  have e: "line = [] \<or> (hd line \<notin> set bullet_chars \<and> last line \<notin> set bullet_chars)"
    using strip_by_ends [of "\<lambda>c. c \<in> set bullet_chars" raw]
    unfolding line_def strip_chars_def by blast
  have p: "parse_line raw (caps, tags, desc) =
       (if line = [] then (caps, tags, desc)
        else if startswith line hash_chars then
          (caps, tags @ [strip_chars hash_chars line], desc)
        else if length caps < 3 then (caps @ [line], tags, desc)
        else (caps, tags, desc @ line @ [32]))"
    by (simp add: parse_line_def line_def Let_def)
  show ?thesis using d(1) l e p by blast
qed

text \<open>
  The decomposition fixes the trimmed line: no other string lies between two runs
  of these characters without starting or ending with one.
\<close>

lemma trimmed_line_unique:
  assumes "raw = pre @ line @ post"
    and "list_all p pre" and "list_all p post"
    and "line = [] \<or> (\<not> p (hd line) \<and> \<not> p (last line))"
  shows "line = strip_by p raw"
proof (cases "line = []")
  case True
  then have "\<forall>c \<in> set raw. p c" using assms(1,2,3) by (auto simp: list_all_iff)
  then show ?thesis using True by (simp add: strip_by_all)
next
  case False
  then have ends: "\<not> p (hd line)" "\<not> p (last line)" using assms(4) by simp_all
  have pre: "\<forall>c \<in> set pre. p c" and post: "\<forall>c \<in> set post. p c"
    using assms(2,3) by (simp_all add: list_all_iff)
  have "dropWhile p (pre @ line @ post) = dropWhile p (line @ post)"
    using pre by (simp add: dropWhile_append)
  also have "\<dots> = line @ post" using False ends(1) by (cases line) simp_all
  finally have l: "lstrip_by p raw = line @ post" by (simp add: lstrip_by_def assms(1))
  have "dropWhile p (rev (line @ post)) = dropWhile p (rev post @ rev line)" by simp
  also have "\<dots> = dropWhile p (rev line)" using post by (simp add: dropWhile_append)
  also have "\<dots> = rev line"
    using False ends(2) by (intro dropWhile_hd_id) (simp_all add: hd_rev)
  finally have "rstrip_by p (line @ post) = line" by (simp add: rstrip_by_def)
  then show ?thesis by (simp add: strip_by_def l)
qed

text \<open>
  C4 as the claim has it fails: the line \<open>hello -\<close> becomes the caption \<open>hello\<close>;
  trimming the leading end only would leave it as it is.
\<close>

theorem bullet_trim_trailing_counterexample:
  "captions (generate_captions (Some (ustr ''hello -''))) = [ustr ''hello''] \<and>
   lstrip_chars bullet_chars (ustr ''hello -'') = ustr ''hello -''"
  by (simp add: generate_captions_def parse_lines_def parse_line_def split_on_def ustr_def
      strip_chars_def lstrip_chars_def strip_by_def rstrip_by_def lstrip_by_def bullet_chars_def
      hash_chars_def startswith_def)

text \<open>
  C5. The captions are the first three candidate lines, so there are never more
  than three; every later candidate goes to the description, followed by a space;
  the description is stripped (\<open>description.strip()\<close>), so that it does not end
  with whitespace.
\<close>

theorem at_most_three_captions:
  "captions (generate_captions text) = take 3 (body_of (reply_lines text)) \<and>
   length (captions (generate_captions text)) \<le> 3 \<and>
   description (generate_captions text) =
     py_strip (concat (map (\<lambda>l. l @ [32]) (drop 3 (body_of (reply_lines text))))) \<and>
   (description (generate_captions text) = [] \<or>
    \<not> is_space (last (description (generate_captions text))))"
proof -
  define d where "d = concat (map (\<lambda>l. l @ [32]) (drop 3 (body_of (reply_lines text))))"
  have "py_strip d = [] \<or> \<not> is_space (last (py_strip d))"
    unfolding py_strip_def using strip_by_ends [of is_space d] by blast
  then show ?thesis by (simp add: generate_captions_eq d_def)
qed

text \<open>
  C10. A line that is nothing but \<open>#\<close> characters once trimmed adds the empty
  string to the hashtags.
\<close>

theorem hash_only_line_gives_empty_hashtag:
  assumes "strip_chars bullet_chars raw \<noteq> []"
    and "list_all (\<lambda>c. c = 35) (strip_chars bullet_chars raw)"
  shows "parse_line raw (caps, tags, desc) = (caps, tags @ [[]], desc)"
proof -
  define line where "line = strip_chars bullet_chars raw"
  have ne: "line \<noteq> []" and all: "\<forall>c \<in> set line. c = 35"
    using assms by (simp_all add: line_def list_all_iff)
  have "take 1 line = [35]" using ne all by (cases line) auto
  then have sw: "startswith line hash_chars" by (simp add: startswith_def hash_chars_def)
  have "strip_chars hash_chars line = []"
    unfolding strip_chars_def using all by (intro strip_by_all) (simp add: hash_chars_def)
  then show ?thesis using ne sw by (simp add: parse_line_def line_def [symmetric])
qed

theorem hash_only_line_gives_empty_hashtag_witness:
  "hashtags (generate_captions (Some (ustr ''one
- ###
two''))) = [[]] \<and>
   parse_line (ustr ''- ###'') ([ustr ''one''], [], []) = ([ustr ''one''], [] @ [[]], [])"
proof -
  have a: "strip_chars bullet_chars (ustr ''- ###'') \<noteq> []"
    by (simp add: strip_chars_def strip_by_def rstrip_by_def lstrip_by_def bullet_chars_def ustr_def)
  have b: "list_all (\<lambda>c. c = 35) (strip_chars bullet_chars (ustr ''- ###''))"
    by (simp add: strip_chars_def strip_by_def rstrip_by_def lstrip_by_def bullet_chars_def ustr_def)
  have c: "hashtags (generate_captions (Some (ustr ''one
- ###
two''))) = [[]]"
    by (simp add: generate_captions_def parse_lines_def parse_line_def split_on_def ustr_def
      strip_chars_def strip_by_def rstrip_by_def lstrip_by_def bullet_chars_def
      hash_chars_def startswith_def)
  show ?thesis using hash_only_line_gives_empty_hashtag [OF a b] c by blast
qed

text \<open>
  A run of the parser: the third line that is no hashtag still becomes a caption,
  whatever follows the hashtags.
\<close>

lemma generate_captions_example:
  "generate_captions (Some (ustr ''Caption one
Caption two
#funny
#meme
A short description here'')) =
     \<lparr>captions = [ustr ''Caption one'', ustr ''Caption two'', ustr ''A short description here''],
      hashtags = [ustr ''funny'', ustr ''meme''],
      description = []\<rparr>"
  by (simp add: generate_captions_def parse_lines_def parse_line_def split_on_def ustr_def
      strip_chars_def strip_by_def rstrip_by_def lstrip_by_def bullet_chars_def
      hash_chars_def startswith_def py_strip_def)

lemma generate_captions_nothing:
  "generate_captions None = \<lparr>captions = [], hashtags = [], description = []\<rparr> \<and>
   generate_captions (Some []) = \<lparr>captions = [], hashtags = [], description = []\<rparr>"
  by (simp add: generate_captions_def py_strip_def strip_by_def rstrip_by_def lstrip_by_def)

section \<open>Word wrap\<close>

lemma split_when_not_Nil: "split_when p s \<noteq> []"
  by (induction s) (auto split: list.splits)

lemma split_when_append_sep:
  "p c \<Longrightarrow> split_when p (a @ c # b) = split_when p a @ split_when p b"
proof (induction a)
  case Nil
  then show ?case by simp
next
  case (Cons x a)
  obtain l ls where "split_when p a = l # ls"
    using split_when_not_Nil [of p a] by (cases "split_when p a") auto
  then show ?case using Cons by simp
qed

lemma py_split_append_sep:
  "is_space c \<Longrightarrow> py_split (a @ c # b) = py_split a @ py_split b"
  by (simp add: py_split_def split_when_append_sep)

lemma split_when_no_sep:
  "\<forall>c \<in> set w. \<not> p c \<Longrightarrow> split_when p w = [w]"
  by (induction w) auto

lemma py_split_word:
  "w \<noteq> [] \<Longrightarrow> \<forall>c \<in> set w. \<not> is_space c \<Longrightarrow> py_split w = [w]"
  by (simp add: py_split_def split_when_no_sep)

lemma split_when_pieces:
  "w \<in> set (split_when p s) \<Longrightarrow> \<forall>c \<in> set w. \<not> p c"
proof (induction s arbitrary: w)
  case Nil
  then show ?case by simp
next
  case (Cons x s)
  obtain l ls where ls: "split_when p s = l # ls"
    using split_when_not_Nil [of p s] by (cases "split_when p s") auto
  show ?case
  proof (cases "p x")
    case True
    then show ?thesis using Cons by auto
  next
    case False
    then have "w = x # l \<or> w \<in> set ls" using Cons.prems ls by simp
    moreover have "\<forall>c \<in> set l. \<not> p c" using Cons.IH [of l] ls by simp
    moreover have "w \<in> set ls \<Longrightarrow> \<forall>c \<in> set w. \<not> p c" using Cons.IH [of w] ls by simp
    ultimately show ?thesis using False by auto
  qed
qed

lemma py_split_pieces:
  "w \<in> set (py_split s) \<Longrightarrow> w \<noteq> [] \<and> (\<forall>c \<in> set w. \<not> is_space c)"
  using split_when_pieces [of w is_space s] by (simp add: py_split_def)

lemma py_split_all_space:
  "\<forall>c \<in> set s. is_space c \<Longrightarrow> py_split s = []"
  by (induction s) (auto simp: py_split_def)

lemma py_split_lead:
  "\<forall>c \<in> set pre. is_space c \<Longrightarrow> py_split (pre @ s) = py_split s"
  by (induction pre) (auto simp: py_split_def)

lemma py_split_trail:
  assumes "\<forall>c \<in> set post. is_space c"
  shows "py_split (s @ post) = py_split s"
proof (cases post)
  case Nil
  then show ?thesis by simp
next
  case (Cons c rest)
  then have "is_space c" "\<forall>c \<in> set rest. is_space c" using assms by simp_all
  then show ?thesis using Cons by (simp add: py_split_append_sep py_split_all_space)
qed

lemma py_split_strip: "py_split (py_strip s) = py_split s"
proof -
  obtain pre post where d: "s = pre @ py_strip s @ post"
      "\<forall>c \<in> set pre. is_space c" "\<forall>c \<in> set post. is_space c"
    unfolding py_strip_def using strip_by_decomp by blast
  have "py_split s = py_split (pre @ (py_strip s @ post))" using d(1) by simp
  also have "\<dots> = py_split (py_strip s @ post)" using d(2) by (rule py_split_lead)
  also have "\<dots> = py_split (py_strip s)" using d(3) by (rule py_split_trail)
  finally show ?thesis by simp
qed

lemma py_split_join_space:
  "py_split (join_space ls) = concat (map py_split ls)"
proof (induction ls rule: join_space.induct)
  case 1
  then show ?case by (simp add: py_split_def)
next
  case (2 x)
  then show ?case by simp
next
  case (3 x y ys)
  have "is_space 32" by (simp add: is_space_def)
  then have "py_split (x @ 32 # join_space (y # ys)) = py_split x @ py_split (join_space (y # ys))"
    by (rule py_split_append_sep)
  then show ?case using 3 by simp
qed

text \<open>The words that a state of the loop holds, in order.\<close>

lemma wrap_step_words:
  assumes "w \<noteq> []" and "\<forall>c \<in> set w. \<not> is_space c"
    and "wrap_step tw limit w (lines, current) = (lines', current')"
  shows "concat (map py_split lines') @ py_split current' =
         concat (map py_split lines) @ py_split current @ [w]"
proof -
  have sp: "is_space 32" by (simp add: is_space_def)
  have w: "py_split w = [w]" using assms(1,2) by (rule py_split_word)
  define trial where "trial = py_strip (current @ [32] @ w)"
  have t: "py_split trial = py_split current @ [w]"
    unfolding trial_def using py_split_append_sep [OF sp, of current w] w
    by (simp add: py_split_strip)
  show ?thesis
  proof (cases "tw trial \<le> limit")
    case True
    then have "lines' = lines" "current' = trial"
      using assms(3) by (simp_all add: wrap_step_def trial_def)
    then show ?thesis using t by simp
  next
    case False
    show ?thesis
    proof (cases "current = []")
      case True
      then have "lines' = lines" "current' = w"
        using assms(3) False by (simp_all add: wrap_step_def trial_def)
      then show ?thesis using True w by (simp add: py_split_def)
    next
      case nonempty: False
      then have "lines' = lines @ [current]" "current' = w"
        using assms(3) False by (simp_all add: wrap_step_def trial_def)
      then show ?thesis using w by simp
    qed
  qed
qed

lemma fold_wrap_step_words:
  assumes "\<forall>w \<in> set ws. w \<noteq> [] \<and> (\<forall>c \<in> set w. \<not> is_space c)"
    and "fold (wrap_step tw limit) ws (lines, current) = (lines', current')"
  shows "concat (map py_split lines') @ py_split current' =
         concat (map py_split lines) @ py_split current @ ws"
  using assms
proof (induction ws arbitrary: lines current)
  case Nil
  then show ?case by simp
next
  case (Cons w ws)
  obtain l1 c1 where s: "wrap_step tw limit w (lines, current) = (l1, c1)"
    by (cases "wrap_step tw limit w (lines, current)") auto
  have a: "concat (map py_split l1) @ py_split c1 =
           concat (map py_split lines) @ py_split current @ [w]"
    using Cons.prems(1) s by (intro wrap_step_words) simp_all
  have "fold (wrap_step tw limit) ws (l1, c1) = (lines', current')"
    using Cons.prems(2) s by simp
  then have "concat (map py_split lines') @ py_split current' =
             concat (map py_split l1) @ py_split c1 @ ws"
    using Cons.IH Cons.prems(1) by simp
  then show ?case using a by simp
qed

lemma wrap_words_words:
  assumes "\<forall>w \<in> set ws. w \<noteq> [] \<and> (\<forall>c \<in> set w. \<not> is_space c)"
  shows "concat (map py_split (wrap_words tw limit ws)) = ws"
proof -
  obtain lines current where f: "fold (wrap_step tw limit) ws ([], []) = (lines, current)"
    by (cases "fold (wrap_step tw limit) ws ([], [])") auto
  have "concat (map py_split lines) @ py_split current = ws"
    using fold_wrap_step_words [OF assms f] by (simp add: py_split_def)
  moreover have "current = [] \<Longrightarrow> py_split current = []" by (simp add: py_split_def)
  ultimately show ?thesis using f by (auto simp: wrap_words_def)
qed

text \<open>
  C7. Wrapping is idempotent: the lines of a text, joined by single spaces and
  wrapped again with the same font and the same image width, are the same lines.
\<close>

theorem wrap_text_idempotent:
  "wrap_text lib f W (join_space (wrap_text lib f W txt)) = wrap_text lib f W txt"
proof -
  define ws where "ws = py_split txt"
  define ls where "ls = wrap_words (text_width lib f) (wrap_limit W) ws"
  have "\<forall>w \<in> set ws. w \<noteq> [] \<and> (\<forall>c \<in> set w. \<not> is_space c)"
    unfolding ws_def using py_split_pieces by blast
  then have "concat (map py_split ls) = ws"
    unfolding ls_def by (rule wrap_words_words)
  then have "py_split (join_space ls) = ws"
    by (simp add: py_split_join_space)
  then have "wrap_words (text_width lib f) (wrap_limit W) (py_split (join_space ls)) = ls"
    by (simp add: ls_def)
  then show ?thesis by (simp add: wrap_text_def ls_def ws_def)
qed

text \<open>A run of the wrap: with characters 10 wide and a limit of 90, three lines.\<close>

lemma wrap_text_example:
  "wrap_limit 100 = 90 \<and>
   wrap_text example_library (Font 0) 100 (ustr ''  hello big  world of memes '') =
     [ustr ''hello big'', ustr ''world of'', ustr ''memes'']"
proof -
  have l: "wrap_limit 100 = 90"
    by (simp add: wrap_limit_def float_div_def round_pos_def round_half_even_def
        float_mul_int_def float_trunc_def bit_length.simps Let_def)
  have s: "py_split (ustr ''  hello big  world of memes '') =
           [ustr ''hello'', ustr ''big'', ustr ''world'', ustr ''of'', ustr ''memes'']"
    by (simp add: py_split_def ustr_def is_space_def)
  have t: "text_width example_library (Font 0) = (\<lambda>s. 10 * int (length s))"
    by (simp add: text_width_def example_library_def fun_eq_iff)
  have "wrap_words (\<lambda>s. 10 * int (length s)) 90
          [ustr ''hello'', ustr ''big'', ustr ''world'', ustr ''of'', ustr ''memes''] =
        [ustr ''hello big'', ustr ''world of'', ustr ''memes'']"
    by (simp add: wrap_words_def wrap_step_def py_strip_def strip_by_def rstrip_by_def
        lstrip_by_def is_space_def ustr_def Let_def)
  then show ?thesis using l by (simp add: wrap_text_def s t l)
qed

section \<open>Rounding\<close>

text \<open>
  The error of the float operations: a quotient and a product of non-negative
  numbers are off by at most the fraction \<open>1 / 2 ^ 53\<close> of the exact value, and
  \<open>int\<close> of a non-negative float is its floor.
\<close>

lemma bit_length_pos: "0 < n \<Longrightarrow> bit_length n = 1 + bit_length (n div 2)"
  by (subst bit_length.simps) simp

lemma bit_length_bounds:
  "0 < n \<Longrightarrow> 1 \<le> bit_length n \<and> 2 ^ nat (bit_length n - 1) \<le> n \<and> n < 2 ^ nat (bit_length n)"
proof (induction n rule: bit_length.induct)
  case (1 n)
  show ?case
  proof (cases "n = 1")
    case True
    have "bit_length 1 = 1" by (simp add: bit_length.simps)
    then show ?thesis using True by simp
  next
    case False
    then have h: "0 < n div 2" using "1.prems" by simp
    define b where "b = bit_length (n div 2)"
    have ih: "1 \<le> b" "2 ^ nat (b - 1) \<le> n div 2" "n div 2 < 2 ^ nat b"
      using "1.IH" h "1.prems" unfolding b_def by simp_all
    have bn: "bit_length n = 1 + b" using "1.prems" by (simp add: bit_length_pos b_def)
    have s: "nat b = Suc (nat (b - 1))" using ih(1) by simp
    have "(2::int) ^ nat b = 2 * 2 ^ nat (b - 1)" by (subst s) simp
    then have lo: "2 ^ nat b \<le> n" using ih(2) by linarith
    have s2: "nat (1 + b) = Suc (nat b)" using ih(1) by simp
    have "(2::int) ^ nat (1 + b) = 2 * 2 ^ nat b" by (subst s2) simp
    then have hi: "n < 2 ^ nat (1 + b)" using ih(3) by linarith
    show ?thesis using ih(1) lo hi by (simp add: bn)
  qed
qed

lemma round_half_even_error:
  assumes "0 < d"
  shows "\<bar>(of_int (round_half_even n d) :: rat) - of_int n / of_int d\<bar> \<le> 1 / 2"
proof -
  define q where "q = n div d"
  define r where "r = n mod d"
  have n: "n = q * d + r" and r: "0 \<le> r" "r < d"
    using assms by (simp_all add: q_def r_def)
  have dpos: "(0::rat) < of_int d" using assms by simp
  have frac: "(of_int n :: rat) / of_int d = of_int q + of_int r / of_int d"
    using dpos by (simp add: n field_simps)
  have r0: "(0::rat) \<le> of_int r / of_int d" using r(1) dpos by simp
  have r1: "(of_int r :: rat) / of_int d < 1" using r(2) dpos by simp
  consider (lo) "2 * r < d" | (hi) "d < 2 * r" | (tie) "2 * r = d" by linarith
  then show ?thesis
  proof cases
    case lo
    then have "round_half_even n d = q" by (simp add: round_half_even_def q_def r_def Let_def)
    moreover have "(of_int r :: rat) / of_int d < 1 / 2"
    proof -
      have "(of_int (2 * r) :: rat) < of_int d" using lo by (simp only: of_int_less_iff)
      then show ?thesis using dpos by (simp add: field_simps)
    qed
    ultimately show ?thesis using frac r0 by simp
  next
    case hi
    then have "round_half_even n d = q + 1" by (simp add: round_half_even_def q_def r_def Let_def)
    moreover have "(1::rat) / 2 < of_int r / of_int d"
    proof -
      have "(of_int d :: rat) < of_int (2 * r)" using hi by (simp only: of_int_less_iff)
      then show ?thesis using dpos by (simp add: field_simps)
    qed
    ultimately show ?thesis using frac r1 by simp
  next
    case tie
    then have "(of_int d :: rat) = of_int (2 * r)" by simp
    then have h: "(of_int r :: rat) / of_int d = 1 / 2" using dpos by (simp add: field_simps)
    have "round_half_even n d = q \<or> round_half_even n d = q + 1"
      by (simp add: round_half_even_def q_def r_def Let_def)
    then show ?thesis using frac h by auto
  qed
qed

lemma round_half_even_nonneg:
  "0 \<le> n \<Longrightarrow> 0 < d \<Longrightarrow> 0 \<le> round_half_even n d"
  by (simp add: round_half_even_def Let_def pos_imp_zdiv_nonneg_iff)


lemma two_powi_nat: "0 \<le> j \<Longrightarrow> (2::rat) powi j = 2 ^ nat j"
  by (simp add: power_int_def)

lemma two_powi_neg: "j < 0 \<Longrightarrow> (2::rat) powi j = 1 / 2 ^ nat (- j)"
  by (simp add: power_int_def field_simps)

lemma two_powi_sub: "(2::rat) powi (a - b) = 2 powi a / 2 powi b"
  by (simp add: power_int_diff)

lemma float_val_powi: "float_val (m, e) = of_int m * 2 powi e"
  by (simp add: float_val_def two_powi_nat two_powi_neg)

lemma quotient_lower:
  assumes "0 < n" and "0 < d"
  shows "(2::rat) powi (bit_length n - bit_length d - 1) \<le> of_int n / of_int d"
proof -
  have bn: "1 \<le> bit_length n" "2 ^ nat (bit_length n - 1) \<le> n"
    using bit_length_bounds [OF assms(1)] by simp_all
  have bd: "1 \<le> bit_length d" "d < 2 ^ nat (bit_length d)"
    using bit_length_bounds [OF assms(2)] by simp_all
  have n': "(2::rat) powi (bit_length n - 1) \<le> of_int n"
  proof -
    have "(of_int ((2::int) ^ nat (bit_length n - 1)) :: rat) \<le> of_int n"
      using bn(2) by (simp only: of_int_le_iff)
    then show ?thesis using bn(1) by (simp add: two_powi_nat)
  qed
  have d': "(of_int d :: rat) \<le> 2 powi (bit_length d)"
  proof -
    have "(of_int d :: rat) \<le> of_int ((2::int) ^ nat (bit_length d))"
      using bd(2) by (simp only: of_int_le_iff)
    then show ?thesis using bd(1) by (simp add: two_powi_nat)
  qed
  have dpos: "(0::rat) < of_int d" using assms(2) by simp
  have "(2::rat) powi (bit_length n - bit_length d - 1) = 2 powi (bit_length n - 1) / 2 powi (bit_length d)"
    using two_powi_sub [of "bit_length n - 1" "bit_length d"] by (simp add: algebra_simps)
  also have "\<dots> \<le> of_int n / 2 powi (bit_length d)"
    using n' by (simp add: divide_right_mono)
  also have "\<dots> \<le> of_int n / of_int d"
    using d' dpos assms(1) by (simp add: frac_le)
  finally show ?thesis .
qed

lemma round_pos_error:
  assumes "0 < n" and "0 < d"
  shows "\<exists>m e. round_pos n d = (m, e) \<and> 0 \<le> m \<and>
           \<bar>of_int m * 2 powi e - (of_int n :: rat) / of_int d\<bar> \<le> (of_int n / of_int d) / 2 ^ 53"
proof -
  define q :: rat where "q = of_int n / of_int d"
  define k where "k = bit_length n - bit_length d"
  define c where "c \<longleftrightarrow> (if 0 \<le> k then d * 2 ^ nat k \<le> n else d \<le> n * 2 ^ nat (- k))"
  define e where "e = (if c then k - 52 else k - 53)"
  define num where "num = (if 0 \<le> e then n else n * 2 ^ nat (- e))"
  define den where "den = (if 0 \<le> e then d * 2 ^ nat e else d)"
  define m where "m = round_half_even num den"
  have rp: "round_pos n d = (m, e)"
    by (simp add: round_pos_def Let_def m_def num_def den_def e_def c_def k_def)
  have dpos: "(0::rat) < of_int d" using assms(2) by simp
  have qpos: "0 < q" using assms by (simp add: q_def)
  have lower: "2 powi (k - 1) \<le> q"
    using quotient_lower [OF assms] by (simp add: k_def q_def algebra_simps)
  have c_iff: "c \<longleftrightarrow> 2 powi k \<le> q"
  proof (cases "0 \<le> k")
    case True
    have "c \<longleftrightarrow> (of_int (d * 2 ^ nat k) :: rat) \<le> of_int n"
      using True by (simp only: c_def if_True of_int_le_iff)
    also have "\<dots> \<longleftrightarrow> (2::rat) ^ nat k \<le> q"
      using dpos by (simp add: q_def field_simps)
    finally show ?thesis using True by (simp add: two_powi_nat)
  next
    case False
    have "c \<longleftrightarrow> (of_int d :: rat) \<le> of_int (n * 2 ^ nat (- k))"
      using False by (simp only: c_def if_False of_int_le_iff)
    also have "\<dots> \<longleftrightarrow> 1 / (2::rat) ^ nat (- k) \<le> q"
      using dpos by (simp add: q_def field_simps)
    finally show ?thesis using False by (simp add: two_powi_neg)
  qed
  have ulp: "2 powi e * 2 ^ 52 \<le> q"
  proof (cases c)
    case True
    then have "e = k - 52" by (simp add: e_def)
    then have "(2::rat) powi e = 2 powi k / 2 ^ 52"
      using two_powi_sub [of k 52] by simp
    then show ?thesis using True c_iff by simp
  next
    case False
    then have "e = (k - 1) - 52" by (simp add: e_def)
    then have "(2::rat) powi e = 2 powi (k - 1) / 2 ^ 52"
      using two_powi_sub [of "k - 1" 52] by simp
    then show ?thesis using lower by simp
  qed
  have epos: "(0::rat) < 2 powi e" by simp
  have denpos: "0 < den" using assms(2) by (simp add: den_def)
  have numnn: "0 \<le> num" using assms(1) by (simp add: num_def)
  have scaled: "(of_int num :: rat) / of_int den = q / 2 powi e"
  proof (cases "0 \<le> e")
    case True
    then show ?thesis using dpos by (simp add: num_def den_def q_def two_powi_nat)
  next
    case False
    then show ?thesis using dpos by (simp add: num_def den_def q_def two_powi_neg)
  qed
  have "\<bar>(of_int m :: rat) - q / 2 powi e\<bar> \<le> 1 / 2"
    using round_half_even_error [OF denpos, of num] by (simp add: m_def scaled)
  then have "\<bar>(of_int m :: rat) - q / 2 powi e\<bar> * 2 powi e \<le> 1 / 2 * 2 powi e"
    using epos by (simp add: mult_right_mono)
  moreover have "\<bar>(of_int m :: rat) - q / 2 powi e\<bar> * 2 powi e = \<bar>of_int m * 2 powi e - q\<bar>"
  proof -
    have "\<bar>(of_int m :: rat) - q / 2 powi e\<bar> * 2 powi e
          = \<bar>(of_int m - q / 2 powi e) * 2 powi e\<bar>"
      using epos by (simp add: abs_mult)
    also have "(of_int m - q / 2 powi e) * 2 powi e = of_int m * 2 powi e - q"
      using epos by (simp add: field_simps)
    finally show ?thesis .
  qed
  ultimately have "\<bar>of_int m * 2 powi e - q\<bar> \<le> 2 powi e / 2" by simp
  also have "\<dots> \<le> q / 2 ^ 53" using ulp by simp
  finally have err: "\<bar>of_int m * 2 powi e - q\<bar> \<le> q / 2 ^ 53" .
  have "0 \<le> m" unfolding m_def using numnn denpos by (rule round_half_even_nonneg)
  then show ?thesis using rp err unfolding q_def by blast
qed


lemma float_div_error:
  assumes "0 \<le> n" and "0 < d"
  shows "\<exists>m e. float_div n d = (m, e) \<and> 0 \<le> m \<and>
           \<bar>float_val (m, e) - of_int n / of_int d\<bar> \<le> (of_int n / of_int d) / 2 ^ 53"
proof (cases "n = 0")
  case True
  then show ?thesis by (simp add: float_div_def float_val_def)
next
  case False
  then have pos: "0 < n" using assms(1) by simp
  then have "float_div n d = round_pos n d" by (simp add: float_div_def)
  then show ?thesis using round_pos_error [OF pos assms(2)] by (simp add: float_val_powi)
qed

lemma float_mul_int_error:
  assumes "0 \<le> s" and "0 \<le> m"
  shows "\<exists>m' e'. float_mul_int s (m, e) = (m', e') \<and> 0 \<le> m' \<and>
           \<bar>float_val (m', e') - of_int s * float_val (m, e)\<bar>
             \<le> (of_int s * float_val (m, e)) / 2 ^ 53"
proof -
  define n where "n = (if 0 \<le> e then s * m * 2 ^ nat e else s * m)"
  define d :: int where "d = (if 0 \<le> e then 1 else 2 ^ nat (- e))"
  have nn: "0 \<le> n" using assms by (simp add: n_def)
  have dp: "0 < d" by (simp add: d_def)
  have f: "float_mul_int s (m, e) = float_div n d"
    by (simp add: float_mul_int_def n_def d_def)
  have eq: "(of_int n :: rat) / of_int d = of_int s * float_val (m, e)"
    by (simp add: float_val_def n_def d_def)
  obtain m' e' where r: "float_div n d = (m', e')" "0 \<le> m'"
      "\<bar>float_val (m', e') - of_int n / of_int d\<bar> \<le> (of_int n / of_int d) / 2 ^ 53"
    using float_div_error [OF nn dp] by blast
  have "float_mul_int s (m, e) = (m', e')" using f r(1) by simp
  then show ?thesis using r(2) r(3) [unfolded eq] by (intro exI conjI)
qed

lemma float_trunc_floor:
  assumes "0 \<le> m"
  shows "0 \<le> float_trunc (m, e) \<and>
         of_int (float_trunc (m, e)) \<le> float_val (m, e) \<and>
         float_val (m, e) < of_int (float_trunc (m, e)) + 1"
proof (cases "0 \<le> e")
  case True
  then show ?thesis using assms by (simp add: float_trunc_def float_val_def)
next
  case False
  define c :: int where "c = 2 ^ nat (- e)"
  have cpos: "0 < c" by (simp add: c_def)
  define q where "q = m div c"
  define r where "r = m mod c"
  have t: "float_trunc (m, e) = q" using False assms by (simp add: float_trunc_def c_def q_def)
  have v: "float_val (m, e) = of_int m / of_int c" using False by (simp add: float_val_def c_def)
  have m: "m = q * c + r" and r: "0 \<le> r" "r < c" using cpos by (simp_all add: q_def r_def)
  have cp: "(0::rat) < of_int c" using cpos by simp
  have frac: "(of_int m :: rat) / of_int c = of_int q + of_int r / of_int c"
    using cp by (simp add: m field_simps)
  have r0: "(0::rat) \<le> of_int r / of_int c" using r(1) cp by simp
  have r1: "(of_int r :: rat) / of_int c < 1" using r(2) cp by simp
  have "0 \<le> q" unfolding q_def using assms cpos by (simp add: pos_imp_zdiv_nonneg_iff)
  then show ?thesis unfolding t v frac using r0 r1 by simp
qed

lemma overlay_height_bound:
  fixes w oh ow :: int and r :: rat and h :: int
  assumes "0 \<le> w" and "0 \<le> oh" and "0 < ow"
    and r_def: "r = of_int w * of_int oh / of_int ow"
    and h_def: "h = float_trunc (float_mul_int w (float_div oh ow))"
  shows "0 \<le> h \<and> of_int h \<le> r * (1 + 1 / 2 ^ 53) ^ 2 \<and> r * (1 - 1 / 2 ^ 53) ^ 2 - 1 < of_int h"
proof -
  define eps :: rat where "eps = 1 / 2 ^ 53"
  have eps: "0 < eps" "eps < 1" by (simp_all add: eps_def)
  define q :: rat where "q = of_int oh / of_int ow"
  have q0: "0 \<le> q" using assms(2,3) by (simp add: q_def)
  obtain m e where a: "float_div oh ow = (m, e)" "0 \<le> m"
      "\<bar>float_val (m, e) - q\<bar> \<le> q * eps"
    using float_div_error [OF assms(2,3)] by (auto simp: q_def eps_def)
  define x where "x = float_val (m, e)"
  have x: "q * (1 - eps) \<le> x" "x \<le> q * (1 + eps)"
    using a(3) by (simp_all add: x_def algebra_simps abs_le_iff)
  have x0: "0 \<le> x" using a(2) by (simp add: x_def float_val_powi)
  define p where "p = (of_int w :: rat) * x"
  have w0: "(0::rat) \<le> of_int w" using assms(1) by simp
  have p0: "0 \<le> p" using w0 x0 by (simp add: p_def)
  have pl: "r * (1 - eps) \<le> p"
  proof -
    have "of_int w * (q * (1 - eps)) \<le> of_int w * x" using x(1) w0 by (rule mult_left_mono)
    then show ?thesis by (simp add: p_def r_def q_def algebra_simps)
  qed
  have pu: "p \<le> r * (1 + eps)"
  proof -
    have "of_int w * x \<le> of_int w * (q * (1 + eps))" using x(2) w0 by (rule mult_left_mono)
    then show ?thesis by (simp add: p_def r_def q_def algebra_simps)
  qed
  obtain m' e' where b: "float_mul_int w (m, e) = (m', e')" "0 \<le> m'"
      "\<bar>float_val (m', e') - p\<bar> \<le> p * eps"
    using float_mul_int_error [OF assms(1) a(2), of e] by (auto simp: p_def x_def eps_def)
  define v where "v = float_val (m', e')"
  have v: "p * (1 - eps) \<le> v" "v \<le> p * (1 + eps)"
    using b(3) by (simp_all add: v_def algebra_simps abs_le_iff)
  have vl: "r * (1 - eps) ^ 2 \<le> v"
  proof -
    have "r * (1 - eps) * (1 - eps) \<le> p * (1 - eps)"
      using pl eps(2) by (intro mult_right_mono) simp_all
    then show ?thesis using v(1) by (simp add: power2_eq_square algebra_simps)
  qed
  have vu: "v \<le> r * (1 + eps) ^ 2"
  proof -
    have "p * (1 + eps) \<le> r * (1 + eps) * (1 + eps)"
      using pu eps(1) by (intro mult_right_mono) simp_all
    then show ?thesis using v(2) by (simp add: power2_eq_square algebra_simps)
  qed
  have hh: "h = float_trunc (m', e')" by (simp add: h_def a(1) b(1))
  have t: "0 \<le> h" "of_int h \<le> v" "v < of_int h + 1"
    using float_trunc_floor [OF b(2), of e'] by (simp_all add: hh v_def)
  show ?thesis using t vl vu unfolding eps_def by linarith
qed

section \<open>\<open>apply_filter\<close>\<close>

lemma apply_filter_unfold:
  "apply_filter lib img name =
     (if normalised lib name = ustr ''grayscale'' then
        Inr (convert lib (grayscale lib img) (ustr ''RGB''))
      else if normalised lib name = ustr ''sepia'' then
        Inr (convert lib (colorize lib (grayscale lib img) (ustr ''#704214'') (ustr ''#C0A080''))
               (ustr ''RGB''))
      else if normalised lib name = ustr ''blur'' then gaussian_blur lib img 3
      else if normalised lib name = ustr ''bright'' then brightness lib img (float_div 14 10)
      else if normalised lib name = ustr ''contrast'' then contrast lib img (float_div 18 10)
      else if path_exists lib (overlay_path (normalised lib name)) then
        apply_overlay lib img (normalised lib name)
      else Inr img)"
  by (simp add: apply_filter_def normalised_def Let_def)

lemma builtin_names_iff:
  "n \<in> set builtin_names \<longleftrightarrow>
     n = ustr ''grayscale'' \<or> n = ustr ''sepia'' \<or> n = ustr ''blur'' \<or>
     n = ustr ''bright'' \<or> n = ustr ''contrast''"
  by (simp add: builtin_names_def)

text \<open>
  What holds of the pass-through: a name that is no built-in and whose path, as
  \<open>os.path.join\<close> builds it, does not exist, leaves the image as it is.
\<close>

lemma apply_filter_passthrough:
  assumes "normalised lib name \<notin> set builtin_names"
    and "\<not> path_exists lib (overlay_path (normalised lib name))"
  shows "apply_filter lib img name = Inr img"
  using assms by (simp add: apply_filter_unfold builtin_names_iff)

lemma overlay_path_relative:
  assumes "\<not> startswith n [47]"
  shows "overlay_path n = ustr ''static/filters/'' @ n @ ustr ''.png''"
proof -
  have "\<not> startswith (n @ ustr ''.png'') [47]"
    using assms by (cases n) (simp_all add: startswith_def ustr_def)
  then show ?thesis
    by (simp add: overlay_path_def path_join_def startswith_def ustr_def)
qed

lemma overlay_path_absolute:
  assumes "startswith n [47]"
  shows "overlay_path n = n @ ustr ''.png''"
proof -
  have "startswith (n @ ustr ''.png'') [47]"
    using assms by (cases n) (simp_all add: startswith_def)
  then show ?thesis by (simp add: overlay_path_def path_join_def)
qed

text \<open>
  C1 fails on the code for a name that starts with \<open>/\<close>. \<open>os.path.join\<close> drops
  \<open>static/filters\<close> before an absolute component, so for the name \<open>/x\<close> the code
  looks for \<open>/x.png\<close>: where that file exists and \<open>static/filters//x.png\<close> does
  not, the name is no built-in and has no asset in the asset directory, and yet the
  overlay branch runs and the image that comes back is not the one that went in.
\<close>

theorem absolute_name_leaves_asset_directory:
  "normalised example_library (ustr ''/x'') = ustr ''/x'' \<and>
   ustr ''/x'' \<notin> set builtin_names \<and>
   \<not> path_exists example_library (ustr ''static/filters//x.png'') \<and>
   \<not> path_exists example_library (ustr ''static/filters/x.png'') \<and>
   overlay_path (ustr ''/x'') = ustr ''/x.png'' \<and>
   apply_filter example_library (example_image 1000 800) (ustr ''/x'') =
     Inr ((example_image 1000 800)\<lparr>img_data := [1, 2, 3, 7]\<rparr>) \<and>
   apply_filter example_library (example_image 1000 800) (ustr ''/x'') \<noteq>
     Inr (example_image 1000 800)"
proof -
  have n: "normalised example_library (ustr ''/x'') = ustr ''/x''"
    by (simp add: normalised_def py_lower_def lower_ascii_def py_strip_def strip_by_def
        rstrip_by_def lstrip_by_def is_space_def ustr_def)
  have b: "ustr ''/x'' \<notin> set builtin_names"
    by (simp add: builtin_names_def ustr_def)
  have p: "overlay_path (ustr ''/x'') = ustr ''/x.png''"
    by (simp add: overlay_path_def path_join_def startswith_def ustr_def)
  have e: "\<not> path_exists example_library (ustr ''static/filters//x.png'')"
    by (simp add: example_library_def ustr_def)
  have e2: "\<not> path_exists example_library (ustr ''static/filters/x.png'')"
    by (simp add: example_library_def ustr_def)
  have e': "path_exists example_library (ustr ''/x.png'')"
    by (simp add: example_library_def)
  have s: "overlay_size 1000 \<lparr>img_width = 40, img_height = 30, img_mode = ustr ''RGBA'', img_data = [7]\<rparr>
           = Inr (500, 375)"
    by (simp add: overlay_size_def float_div_def round_pos_def round_half_even_def
        float_mul_int_def float_trunc_def bit_length.simps Let_def)
  have o: "apply_overlay example_library (example_image 1000 800) (ustr ''/x'') =
           Inr ((example_image 1000 800)\<lparr>img_data := [1, 2, 3, 7]\<rparr>)"
    by (simp add: apply_overlay_def p s example_library_def example_image_def Let_def)
  have a: "apply_filter example_library (example_image 1000 800) (ustr ''/x'') =
           Inr ((example_image 1000 800)\<lparr>img_data := [1, 2, 3, 7]\<rparr>)"
    using b by (simp add: apply_filter_unfold n p e' o builtin_names_iff)
  have "apply_filter example_library (example_image 1000 800) (ustr ''/x'') \<noteq>
        Inr (example_image 1000 800)"
    unfolding a by (simp add: example_image_def)
  then show ?thesis using n b p e e2 a by simp
qed

text \<open>
  C6. With a library whose operations keep the size of an image, whatever
  \<open>apply_filter\<close> returns, for a built-in name, for an overlay or for any other
  name, has the width and the height of its input. (It can also raise: the blur
  and the enhancers where Pillow refuses the image, the overlay branch where the
  asset does not open or cannot be resized.)
\<close>

theorem apply_filter_keeps_size:
  assumes "keeps_size lib" and "apply_filter lib img name = Inr out"
  shows "same_size out img"
proof -
  have c: "\<And>im m. same_size (convert lib im m) im"
    and g: "\<And>im. same_size (grayscale lib im) im"
    and z: "\<And>im b w. same_size (colorize lib im b w) im"
    and u: "\<And>im r o'. gaussian_blur lib im r = Inr o' \<Longrightarrow> same_size o' im"
    and r: "\<And>im x o'. brightness lib im x = Inr o' \<Longrightarrow> same_size o' im"
    and t: "\<And>im x o'. contrast lib im x = Inr o' \<Longrightarrow> same_size o' im"
    and p: "\<And>base ov pos mask. same_size (paste lib base ov pos mask) base"
    using assms(1) unfolding keeps_size_def by blast+
  have trans: "\<And>a b c. same_size a b \<Longrightarrow> same_size b c \<Longrightarrow> same_size a c"
    by (simp add: same_size_def)
  have refl: "\<And>a. same_size a a" by (simp add: same_size_def)
  have k: "\<And>m m' resized pos.
      same_size (convert lib (paste lib (convert lib img m) resized pos resized) m') img"
    using trans [OF c trans [OF p c]] by blast
  have ov: "\<And>n. apply_overlay lib img n = Inr out \<Longrightarrow> same_size out img"
    by (auto simp: apply_overlay_def Let_def k split: sum.splits)
  have k1: "\<And>m. same_size (convert lib (grayscale lib img) m) img"
    using trans [OF c g] by blast
  have k2: "\<And>b w m. same_size (convert lib (colorize lib (grayscale lib img) b w) m) img"
    using trans [OF c trans [OF z g]] by blast
  define n where "n = normalised lib name"
  have a: "(if n = ustr ''grayscale'' then
              Inr (convert lib (grayscale lib img) (ustr ''RGB''))
            else if n = ustr ''sepia'' then
              Inr (convert lib (colorize lib (grayscale lib img) (ustr ''#704214'') (ustr ''#C0A080''))
                     (ustr ''RGB''))
            else if n = ustr ''blur'' then gaussian_blur lib img 3
            else if n = ustr ''bright'' then brightness lib img (float_div 14 10)
            else if n = ustr ''contrast'' then contrast lib img (float_div 18 10)
            else if path_exists lib (overlay_path n) then apply_overlay lib img n
            else Inr img) = Inr out"
    using assms(2) unfolding apply_filter_unfold n_def .
  show ?thesis
  proof (cases "n = ustr ''grayscale''")
    case True
    then have "out = convert lib (grayscale lib img) (ustr ''RGB'')" using a by simp
    then show ?thesis using k1 by simp
  next
    case n1: False
    show ?thesis
    proof (cases "n = ustr ''sepia''")
      case True
      then have "out = convert lib (colorize lib (grayscale lib img) (ustr ''#704214'')
                  (ustr ''#C0A080'')) (ustr ''RGB'')"
        using a n1 by simp
      then show ?thesis using k2 by simp
    next
      case n2: False
      show ?thesis
      proof (cases "n = ustr ''blur''")
        case True
        then have "gaussian_blur lib img 3 = Inr out" using a n1 n2 by simp
        then show ?thesis by (rule u)
      next
        case n3: False
        show ?thesis
        proof (cases "n = ustr ''bright''")
          case True
          then have "brightness lib img (float_div 14 10) = Inr out" using a n1 n2 n3 by simp
          then show ?thesis by (rule r)
        next
          case n4: False
          show ?thesis
          proof (cases "n = ustr ''contrast''")
            case True
            then have "contrast lib img (float_div 18 10) = Inr out"
              using a n1 n2 n3 n4 by simp
            then show ?thesis by (rule t)
          next
            case n5: False
            show ?thesis
            proof (cases "path_exists lib (overlay_path n)")
              case True
              then have "apply_overlay lib img n = Inr out" using a n1 n2 n3 n4 n5 by simp
              then show ?thesis by (rule ov)
            next
              case False
              then have "out = img" using a n1 n2 n3 n4 n5 by simp
              then show ?thesis by (simp add: refl)
            qed
          qed
        qed
      qed
    qed
  qed
qed

lemma keeps_size_example: "keeps_size example_library"
  by (auto simp: keeps_size_def same_size_def example_library_def split: if_splits)

theorem apply_filter_keeps_size_witness:
  "keeps_size example_library \<and>
   apply_filter example_library (example_image 1000 800) (ustr '' Blur '') =
     Inr (example_image 1000 800) \<and>
   same_size (example_image 1000 800) (example_image 1000 800)"
proof -
  have n: "normalised example_library (ustr '' Blur '') = ustr ''blur''"
    by (simp add: normalised_def py_lower_def lower_ascii_def py_strip_def strip_by_def
        rstrip_by_def lstrip_by_def is_space_def ustr_def)
  have b: "gaussian_blur example_library (example_image 1000 800) 3 = Inr (example_image 1000 800)"
    by (simp add: example_library_def example_image_def ustr_def)
  have ne: "ustr ''blur'' \<noteq> ustr ''grayscale''" "ustr ''blur'' \<noteq> ustr ''sepia''"
    by (simp_all add: ustr_def)
  have a: "apply_filter example_library (example_image 1000 800) (ustr '' Blur '') =
           Inr (example_image 1000 800)"
    unfolding apply_filter_unfold n using ne b by simp
  show ?thesis
    using apply_filter_keeps_size [OF keeps_size_example a] keeps_size_example a by blast
qed

text \<open>A built-in name can raise: the blur of a palette image, in the small library.\<close>

lemma apply_filter_blur_palette:
  "apply_filter example_library ((example_image 1000 800)\<lparr>img_mode := ustr ''P''\<rparr>) (ustr ''blur'')
     = Inl ValueError"
proof -
  have n: "normalised example_library (ustr ''blur'') = ustr ''blur''"
    by (simp add: normalised_def py_lower_def lower_ascii_def py_strip_def strip_by_def
        rstrip_by_def lstrip_by_def is_space_def ustr_def)
  have ne: "ustr ''blur'' \<noteq> ustr ''grayscale''" "ustr ''blur'' \<noteq> ustr ''sepia''"
    by (simp_all add: ustr_def)
  have b: "gaussian_blur example_library ((example_image 1000 800)\<lparr>img_mode := ustr ''P''\<rparr>) 3
           = Inl ValueError"
    by (simp add: example_library_def example_image_def)
  show ?thesis unfolding apply_filter_unfold n using ne b by simp
qed

section \<open>The overlay branch\<close>

lemma normalised_dog: "normalised lib (ustr ''dog'') = ustr ''dog''"
  by (simp add: normalised_def py_lower_def lower_ascii_def py_strip_def strip_by_def
      rstrip_by_def lstrip_by_def is_space_def ustr_def)

lemma overlay_path_dog: "overlay_path (ustr ''dog'') = ustr ''static/filters/dog.png''"
  by (simp add: overlay_path_def path_join_def startswith_def ustr_def)

lemma apply_overlay_unfold:
  assumes "image_open lib (overlay_path n) = Inr opened"
    and "overlay_size (img_width img) (convert lib opened (ustr ''RGBA'')) = Inr sz"
  shows "apply_overlay lib img n =
     (case resize lib (convert lib opened (ustr ''RGBA'')) sz LANCZOS of
        Inl err \<Rightarrow> Inl err
      | Inr resized \<Rightarrow>
          Inr (convert lib
                 (paste lib (convert lib img (ustr ''RGBA'')) resized
                    (overlay_pos n (img_width img) (img_height img) resized) resized)
                 (ustr ''RGB'')))"
  using assms by (simp add: apply_overlay_def Let_def split: sum.splits)

text \<open>
  C8. On an image of 1000 by 800 the filter \<open>dog\<close> pastes the resized overlay with
  its top-left corner at \<open>(200, 32)\<close>, whenever the asset exists, opens and can be
  resized.
\<close>

theorem dog_overlay_anchor:
  assumes "img_width img = 1000" and "img_height img = 800"
    and "path_exists lib (ustr ''static/filters/dog.png'')"
    and "image_open lib (ustr ''static/filters/dog.png'') = Inr opened"
    and "overlay_size 1000 (convert lib opened (ustr ''RGBA'')) = Inr sz"
    and "resize lib (convert lib opened (ustr ''RGBA'')) sz LANCZOS = Inr resized"
  shows "overlay_pos (ustr ''dog'') (img_width img) (img_height img) resized = (200, 32) \<and>
         apply_filter lib img (ustr ''dog'') =
           Inr (convert lib (paste lib (convert lib img (ustr ''RGBA'')) resized (200, 32) resized)
                  (ustr ''RGB''))"
proof -
  have pos: "overlay_pos (ustr ''dog'') (img_width img) (img_height img) resized = (200, 32)"
    using assms(1,2) by (simp add: overlay_pos_def)
  have nb: "ustr ''dog'' \<notin> set builtin_names"
    by (simp add: builtin_names_def ustr_def)
  have "apply_filter lib img (ustr ''dog'') = apply_overlay lib img (ustr ''dog'')"
    using nb assms(3) by (simp add: apply_filter_unfold normalised_dog overlay_path_dog builtin_names_iff)
  also have "\<dots> = Inr (convert lib
       (paste lib (convert lib img (ustr ''RGBA'')) resized
          (overlay_pos (ustr ''dog'') (img_width img) (img_height img) resized) resized)
       (ustr ''RGB''))"
    using assms(1,4,5,6) by (simp add: apply_overlay_unfold overlay_path_dog)
  finally show ?thesis using pos by simp
qed

lemma overlay_size_example:
  "overlay_size 1000 \<lparr>img_width = 40, img_height = 30, img_mode = ustr ''RGBA'', img_data = [7]\<rparr>
     = Inr (500, 375)"
  by (simp add: overlay_size_def float_div_def round_pos_def round_half_even_def
      float_mul_int_def float_trunc_def bit_length.simps Let_def)

theorem dog_overlay_anchor_witness:
  "apply_filter example_library (example_image 1000 800) (ustr ''dog'') =
     Inr (convert example_library
            (paste example_library (convert example_library (example_image 1000 800) (ustr ''RGBA''))
               \<lparr>img_width = 500, img_height = 375, img_mode = ustr ''RGBA'', img_data = [7]\<rparr>
               (200, 32)
               \<lparr>img_width = 500, img_height = 375, img_mode = ustr ''RGBA'', img_data = [7]\<rparr>)
            (ustr ''RGB''))"
proof -
  let ?opened = "\<lparr>img_width = 40, img_height = 30, img_mode = ustr ''P'', img_data = [7]\<rparr>"
  let ?resized = "\<lparr>img_width = 500, img_height = 375, img_mode = ustr ''RGBA'', img_data = [7]\<rparr>"
  have 1: "img_width (example_image 1000 800) = 1000" by (simp add: example_image_def)
  have 2: "img_height (example_image 1000 800) = 800" by (simp add: example_image_def)
  have 3: "path_exists example_library (ustr ''static/filters/dog.png'')"
    by (simp add: example_library_def)
  have 4: "image_open example_library (ustr ''static/filters/dog.png'') = Inr ?opened"
    by (simp add: example_library_def)
  have c: "convert example_library ?opened (ustr ''RGBA'')
           = \<lparr>img_width = 40, img_height = 30, img_mode = ustr ''RGBA'', img_data = [7]\<rparr>"
    by (simp add: example_library_def)
  have 5: "overlay_size 1000 (convert example_library ?opened (ustr ''RGBA'')) = Inr (500, 375)"
    unfolding c by (rule overlay_size_example)
  have 6: "resize example_library (convert example_library ?opened (ustr ''RGBA'')) (500, 375) LANCZOS
           = Inr ?resized"
    unfolding c by (simp add: example_library_def)
  show ?thesis using dog_overlay_anchor [OF 1 2 3 4 5 6] by simp
qed

text \<open>
  C2, as the code has it. The overlay is resized, with Lanczos resampling, to the
  width \<open>W // 2\<close>, the half of \<open>W\<close> rounded down, and to the height
  \<open>int(scale * aspect)\<close>: the product of that width and of the double nearest to
  \<open>oh / ow\<close>, rounded to a double and then cut to an integer. With
  \<open>r = scale * oh / ow\<close> the exact height for that width, the height lies between
  \<open>r * (1 - 1 / 2 ^ 53)\<^sup>2 - 1\<close> and \<open>r * (1 + 1 / 2 ^ 53)\<^sup>2\<close>: the ratio is kept up to
  the rounding and the truncation, not exactly.
\<close>

theorem overlay_resize_target:
  assumes "image_open lib (overlay_path n) = Inr opened"
    and "img_width (convert lib opened (ustr ''RGBA'')) \<noteq> 0"
  shows "\<exists>w h.
           overlay_size (img_width img) (convert lib opened (ustr ''RGBA'')) = Inr (w, h) \<and>
           2 * w \<le> int (img_width img) \<and> int (img_width img) \<le> 2 * w + 1 \<and>
           h = float_trunc (float_mul_int w
                 (float_div (int (img_height (convert lib opened (ustr ''RGBA''))))
                            (int (img_width (convert lib opened (ustr ''RGBA'')))))) \<and>
           0 \<le> h \<and>
           (of_int h :: rat) \<le>
             of_int w * of_int (int (img_height (convert lib opened (ustr ''RGBA'')))) /
               of_int (int (img_width (convert lib opened (ustr ''RGBA'')))) * (1 + 1 / 2 ^ 53) ^ 2 \<and>
           of_int w * of_int (int (img_height (convert lib opened (ustr ''RGBA'')))) /
               of_int (int (img_width (convert lib opened (ustr ''RGBA'')))) * (1 - 1 / 2 ^ 53) ^ 2 - 1
             < (of_int h :: rat) \<and>
           apply_overlay lib img n =
             (case resize lib (convert lib opened (ustr ''RGBA'')) (w, h) LANCZOS of
                Inl err \<Rightarrow> Inl err
              | Inr resized \<Rightarrow>
                  Inr (convert lib
                         (paste lib (convert lib img (ustr ''RGBA'')) resized
                            (overlay_pos n (img_width img) (img_height img) resized) resized)
                         (ustr ''RGB'')))"
proof -
  define ov where "ov = convert lib opened (ustr ''RGBA'')"
  define w where "w = int (img_width img) div 2"
  define h where "h = float_trunc (float_mul_int w
                 (float_div (int (img_height ov)) (int (img_width ov))))"
  define r :: rat where "r = of_int w * of_int (int (img_height ov)) / of_int (int (img_width ov))"
  have s: "overlay_size (img_width img) ov = Inr (w, h)"
    using assms(2) by (simp add: overlay_size_def Let_def w_def h_def ov_def)
  have b: "2 * w \<le> int (img_width img)" "int (img_width img) \<le> 2 * w + 1"
    unfolding w_def by presburger+
  have w0: "0 \<le> w" unfolding w_def by simp
  have oh0: "0 \<le> int (img_height ov)" by simp
  have ow0: "0 < int (img_width ov)" using assms(2) by (simp add: ov_def)
  have hb: "0 \<le> h \<and> of_int h \<le> r * (1 + 1 / 2 ^ 53) ^ 2 \<and>
            r * (1 - 1 / 2 ^ 53) ^ 2 - 1 < of_int h"
    using w0 oh0 ow0 r_def h_def by (rule overlay_height_bound)
  have a: "apply_overlay lib img n =
             (case resize lib ov (w, h) LANCZOS of
                Inl err \<Rightarrow> Inl err
              | Inr resized \<Rightarrow>
                  Inr (convert lib
                         (paste lib (convert lib img (ustr ''RGBA'')) resized
                            (overlay_pos n (img_width img) (img_height img) resized) resized)
                         (ustr ''RGB'')))"
    using assms(1) s unfolding ov_def by (rule apply_overlay_unfold)
  show ?thesis using s b hb a unfolding h_def r_def ov_def by blast
qed

theorem overlay_resize_target_witness:
  "\<exists>w h.
     overlay_size (img_width (example_image 1001 800))
       (convert example_library
          \<lparr>img_width = 40, img_height = 30, img_mode = ustr ''P'', img_data = [7]\<rparr> (ustr ''RGBA''))
       = Inr (w, h) \<and>
     2 * w \<le> int (img_width (example_image 1001 800)) \<and>
     int (img_width (example_image 1001 800)) \<le> 2 * w + 1 \<and>
     0 \<le> h"
proof -
  let ?opened = "\<lparr>img_width = 40, img_height = 30, img_mode = ustr ''P'', img_data = [7]\<rparr>"
  have 1: "image_open example_library (overlay_path (ustr ''dog'')) = Inr ?opened"
    by (simp add: example_library_def)
  have 2: "img_width (convert example_library ?opened (ustr ''RGBA'')) \<noteq> 0"
    by (simp add: example_library_def)
  show ?thesis
    using overlay_resize_target [OF 1 2, of "example_image 1001 800"] by blast
qed

text \<open>
  C2 as the claim has it fails twice. For a base image 3 wide the overlay becomes
  1 wide, which is not half of 3. For a base image 1000 wide and an overlay of 3
  by 2 the overlay becomes 500 by 333, and \<open>333 / 500\<close> is not \<open>2 / 3\<close>.
\<close>

theorem overlay_exact_half_counterexample:
  "overlay_size 3 \<lparr>img_width = 2, img_height = 2, img_mode = ustr ''RGBA'', img_data = []\<rparr>
     = Inr (1, 1) \<and>
   2 * (1 :: int) \<noteq> 3 \<and>
   overlay_size 1000 \<lparr>img_width = 3, img_height = 2, img_mode = ustr ''RGBA'', img_data = []\<rparr>
     = Inr (500, 333) \<and>
   (333 :: int) * 3 \<noteq> 500 * 2"
  by (simp add: overlay_size_def float_div_def round_pos_def round_half_even_def
      float_mul_int_def float_trunc_def bit_length.simps Let_def)

section \<open>\<open>draw_caption_on_image\<close>\<close>




lemma first_font_none:
  "list_all (\<lambda>c. truetype lib c sz = None) cs \<Longrightarrow> first_font lib cs sz = None"
  by (induction cs) auto

text \<open>Where no candidate loads, the font is the default font.\<close>

lemma resolve_font_fallback:
  "list_all (\<lambda>c. truetype lib c sz = None) font_candidates \<Longrightarrow>
   resolve_font lib sz = load_default lib"
  by (simp add: resolve_font_def first_font_none)






end
